theory Spec2Isabelle
  imports Main
begin

section \<open>The arbitrary-precision integer interface\<close>

text \<open>
  \<^verbatim>\<open>rsa.js\<close> computes on \<^verbatim>\<open>BigInteger\<close> objects of \<^verbatim>\<open>jsbn.js\<close>. A \<^verbatim>\<open>BigInteger\<close>
  is immutable and stands for an integer, so the values are modelled as \<^typ>\<open>int\<close>;
  \<^verbatim>\<open>add\<close>, \<^verbatim>\<open>subtract\<close>, \<^verbatim>\<open>multiply\<close>, \<^verbatim>\<open>square\<close>, \<^verbatim>\<open>mod\<close> (with a positive modulus),
  \<^verbatim>\<open>gcd\<close> and \<^verbatim>\<open>compareTo\<close> are the operations of \<^typ>\<open>int\<close>. The remaining operations
  that \<^verbatim>\<open>rsa.js\<close> calls are defined below.
\<close>

text \<open>
  Modelled from the spec: \<^verbatim>\<open>BigInteger.modPow\<close> (in \<^verbatim>\<open>jsbn.js\<close>, not part of the sources
  at hand), the modular exponentiation \<open>x ^ ex mod m\<close> for an exponent \<open>ex \<ge> 0\<close>.
\<close>

definition modPow :: "int \<Rightarrow> int \<Rightarrow> int \<Rightarrow> int" where
  "modPow x ex m = (x ^ nat ex) mod m"

text \<open>
  Modelled from the spec: \<^verbatim>\<open>BigInteger.modPowInt\<close> (in \<^verbatim>\<open>jsbn.js\<close>), the same
  exponentiation on the fast path for a small exponent.
\<close>

definition modPowInt :: "int \<Rightarrow> int \<Rightarrow> int \<Rightarrow> int" where
  "modPowInt x ex m = (x ^ nat ex) mod m"

text \<open>
  Modelled from the spec: \<^verbatim>\<open>BigInteger.modInverse\<close> (in \<^verbatim>\<open>jsbn.js\<close>): the inverse of
  \<open>x\<close> modulo \<open>m\<close> in the range \<open>[0, m)\<close>; the library answers \<^verbatim>\<open>ZERO\<close> when \<open>x\<close> has no
  inverse modulo \<open>m\<close>.
\<close>

definition modInverse :: "int \<Rightarrow> int \<Rightarrow> int" where
  "modInverse x m =
     (case List.find (\<lambda>y. (x * y) mod m = 1) [0..m - 1] of
        Some y \<Rightarrow> y
      | None \<Rightarrow> 0)"

text \<open>
  Modelled from the spec: \<^verbatim>\<open>BigInteger.bitLength\<close> (in \<^verbatim>\<open>jsbn.js\<close>): the number of bits
  of a non-negative value, \<open>0\<close> for zero; for a negative value the number of bits of
  its complement \<open>- x - 1\<close>.
\<close>

fun nbits :: "nat \<Rightarrow> nat" where
  "nbits k = (if k = 0 then 0 else Suc (nbits (k div 2)))"

definition bitLength :: "int \<Rightarrow> nat" where
  "bitLength x = nbits (nat (if x < 0 then - x - 1 else x))"

text \<open>
  Modelled from the spec: the low-order digit (limb) of the internal representation of
  a \<^verbatim>\<open>BigInteger\<close>, which \<^verbatim>\<open>decrypt\<close> reads as \<^verbatim>\<open>t[0]\<close> on the object returned by
  \<^verbatim>\<open>xq.subtract(xp)\<close>. The representation (\<^verbatim>\<open>jsbn.js\<close>) is an array of limbs of \<open>DB\<close>
  bits each (26, 28 or 30 depending on the build), least significant first, negative
  values in two's complement. The subtraction writes limb \<open>i\<close> of the result for every
  \<open>i\<close> below the limb count of the longer operand, before leading limbs are dropped
  from the count; so limb \<open>0\<close> of the difference of two non-negative values is
  \<open>(a - b) mod 2 ^ DB\<close> as soon as one operand is non-zero, and is absent
  (\<^verbatim>\<open>undefined\<close>, here \<open>None\<close>) when both operands are zero.
\<close>

definition subtract_limb0 :: "nat \<Rightarrow> int \<Rightarrow> int \<Rightarrow> int option" where
  "subtract_limb0 DB a b =
     (if a = 0 \<and> b = 0 then None else Some ((a - b) mod 2 ^ DB))"

section \<open>Blinding state\<close>

text \<open>
  \<^verbatim>\<open>var blinder = BigInteger.ZERO; var unblinder = BigInteger.ZERO;\<close> are two variables
  of the module, shared by all calls. They are passed explicitly.
\<close>

record blinding_state =
  blinder :: int
  unblinder :: int

definition initial_blinding :: blinding_state where
  "initial_blinding = \<lparr>blinder = 0, unblinder = 0\<rparr>"

text \<open>The configuration object; only \<^verbatim>\<open>config.rsa_blinding\<close> is read.\<close>

record config =
  rsa_blinding :: bool

text \<open>
  \<^verbatim>\<open>blind(m, n, e)\<close>. The argument \<open>drawn\<close> is the value that
  \<^verbatim>\<open>random.getRandomBigIntegerInRange(BigInteger.TWO, n)\<close> returns if it is called;
  the function returns the blinded message and the new state.
\<close>

definition blind :: "int \<Rightarrow> blinding_state \<Rightarrow> int \<Rightarrow> int \<Rightarrow> int \<Rightarrow> int \<times> blinding_state" where
  "blind drawn st m n e =
     (let ub = (if bitLength (unblinder st) = bitLength n
                then (unblinder st * unblinder st) mod n
                else drawn);
          bl = modPow (modInverse ub n) e n
      in ((m * bl) mod n, \<lparr>blinder = bl, unblinder = ub\<rparr>))"

text \<open>\<^verbatim>\<open>unblind(t, n)\<close> reads the state.\<close>

definition unblind :: "blinding_state \<Rightarrow> int \<Rightarrow> int \<Rightarrow> int" where
  "unblind st t n = (t * unblinder st) mod n"

section \<open>The primitive operations\<close>

text \<open>The two half-size exponentiations of \<^verbatim>\<open>decrypt\<close>: \<^verbatim>\<open>m.mod(p).modPow(d.mod(p.subtract(ONE)), p)\<close>.\<close>

definition half_exp :: "int \<Rightarrow> int \<Rightarrow> int \<Rightarrow> int" where
  "half_exp m d p = modPow (m mod p) (d mod (p - 1)) p"

text \<open>
  The combination step of \<^verbatim>\<open>decrypt\<close>, from \<^verbatim>\<open>var t = xq.subtract(xp)\<close> to the end of
  the \<^verbatim>\<open>if (t[0] === 0) ... else ...\<close>: the value of \<^verbatim>\<open>t\<close> after the branch.
\<close>

definition crt_t :: "nat \<Rightarrow> int \<Rightarrow> int \<Rightarrow> int \<Rightarrow> int \<Rightarrow> int" where
  "crt_t DB xp xq q u =
     (if subtract_limb0 DB xq xp = Some 0
      then q - (((xp - xq) * u) mod q)
      else ((xq - xp) * u) mod q)"

text \<open>
  \<^verbatim>\<open>decrypt(m, n, e, d, p, q, u)\<close>, with the limb width, the configuration, the value
  the random source would return and the blinding state made explicit. It returns the
  result and the blinding state it leaves behind. The debug print is left out.
\<close>

definition decrypt ::
  "nat \<Rightarrow> config \<Rightarrow> int \<Rightarrow> blinding_state \<Rightarrow>
   int \<Rightarrow> int \<Rightarrow> int \<Rightarrow> int \<Rightarrow> int \<Rightarrow> int \<Rightarrow> int \<Rightarrow> int \<times> blinding_state" where
  "decrypt DB cfg drawn st m n e d p q u =
     (let (m1, st1) = (if rsa_blinding cfg then blind drawn st m n e else (m, st));
          xp = half_exp m1 d p;
          xq = half_exp m1 d q;
          t = crt_t DB xp xq q u;
          t' = t * p + xp
      in (if rsa_blinding cfg then unblind st1 t' n else t', st1))"

definition encrypt :: "int \<Rightarrow> int \<Rightarrow> int \<Rightarrow> int" where
  "encrypt m e n = modPowInt m e n"

definition sign :: "int \<Rightarrow> int \<Rightarrow> int \<Rightarrow> int" where
  "sign m d n = modPow m d n"

definition verify :: "int \<Rightarrow> int \<Rightarrow> int \<Rightarrow> int" where
  "verify x e n = modPowInt x e n"

section \<open>Well-formed key material\<close>

definition is_prime :: "int \<Rightarrow> bool" where
  "is_prime p = (1 < p \<and> (\<forall>k\<in>{2..p - 1}. \<not> k dvd p))"

definition valid_key :: "int \<Rightarrow> int \<Rightarrow> int \<Rightarrow> int \<Rightarrow> int \<Rightarrow> int \<Rightarrow> bool" where
  "valid_key n e d p q u =
     (is_prime p \<and> is_prime q \<and> q < p \<and> n = p * q \<and> 0 < e \<and> 0 < d \<and>
      (d * e) mod ((p - 1) * (q - 1)) = 1 \<and> u = modInverse p q)"

section \<open>Completion of a call\<close>

text \<open>
  A JavaScript call either returns a value or throws. None of \<^verbatim>\<open>encrypt\<close>, \<^verbatim>\<open>decrypt\<close>,
  \<^verbatim>\<open>sign\<close>, \<^verbatim>\<open>verify\<close>, \<^verbatim>\<open>blind\<close> and \<^verbatim>\<open>unblind\<close> contains a \<^verbatim>\<open>throw\<close> or a \<^verbatim>\<open>try\<close>.
  The one call in them that the spec lets fail is the random source, which \<^verbatim>\<open>blind\<close>
  calls in its \<^verbatim>\<open>else\<close> branch: when it throws, the exception leaves \<^verbatim>\<open>blind\<close> and
  \<^verbatim>\<open>decrypt\<close> before the state is written.
\<close>

datatype 'a completion = Returned 'a | Threw

text \<open>
  \<^verbatim>\<open>decrypt\<close> as a call. \<open>draw\<close> is how the call of
  \<^verbatim>\<open>random.getRandomBigIntegerInRange(BigInteger.TWO, n)\<close> completes if it is made. It is
  made when blinding is on and the bit lengths of \<^verbatim>\<open>unblinder\<close> and \<^verbatim>\<open>n\<close> differ; in the
  other cases \<^verbatim>\<open>decrypt\<close> does not read the value drawn.
\<close>

definition call_decrypt ::
  "nat \<Rightarrow> config \<Rightarrow> int completion \<Rightarrow> blinding_state \<Rightarrow>
   int \<Rightarrow> int \<Rightarrow> int \<Rightarrow> int \<Rightarrow> int \<Rightarrow> int \<Rightarrow> int \<Rightarrow> (int \<times> blinding_state) completion" where
  "call_decrypt DB cfg draw st m n e d p q u =
     (if rsa_blinding cfg \<and> bitLength (unblinder st) \<noteq> bitLength n
      then (case draw of
              Threw \<Rightarrow> Threw
            | Returned r \<Rightarrow> Returned (decrypt DB cfg r st m n e d p q u))
      else Returned (decrypt DB cfg 0 st m n e d p q u))"

section \<open>Key objects\<close>

text \<open>
  \<^verbatim>\<open>keyObject\<close>: every field starts as \<^verbatim>\<open>null\<close> (\<open>None\<close>) except \<^verbatim>\<open>e\<close>, which starts
  as \<open>0\<close>. The fields carry the prefix \<open>key_\<close>. The field \<^verbatim>\<open>e\<close> holds a JavaScript
  number, the result of \<^verbatim>\<open>parseInt\<close>: a whole number or \<^verbatim>\<open>NaN\<close>.
\<close>

datatype js_number = Number int | NaN

record keyObject =
  key_n :: "int option"
  key_e :: js_number
  key_ee :: "int option"
  key_d :: "int option"
  key_p :: "int option"
  key_q :: "int option"
  key_dmp1 :: "int option"
  key_dmq1 :: "int option"
  key_u :: "int option"

definition new_keyObject :: keyObject where
  "new_keyObject =
     \<lparr>key_n = None, key_e = Number 0, key_ee = None, key_d = None, key_p = None, key_q = None,
      key_dmp1 = None, key_dmq1 = None, key_u = None\<rparr>"

text \<open>
  The value of a string of hexadecimal digits. It stands in the examples for
  \<^verbatim>\<open>new BigInteger(E, 16)\<close> on such a string; a character that is no digit is passed
  over.
\<close>

definition hex_digit :: "char \<Rightarrow> nat option" where
  "hex_digit c =
     (let k = (of_char c :: nat) in
      if 48 \<le> k \<and> k \<le> 57 then Some (k - 48)
      else if 97 \<le> k \<and> k \<le> 102 then Some (k - 87)
      else if 65 \<le> k \<and> k \<le> 70 then Some (k - 55)
      else None)"

definition parse_hex :: "string \<Rightarrow> int" where
  "parse_hex s =
     foldl (\<lambda>acc c. case hex_digit c of Some v \<Rightarrow> 16 * acc + int v | None \<Rightarrow> acc) 0 s"

section \<open>Key generation in the process\<close>

text \<open>
  The search loops of \<^verbatim>\<open>generate\<close>. Two things come from \<^verbatim>\<open>jsbn.js\<close> and are parameters:
  \<open>newBig bits rng\<close> is \<^verbatim>\<open>new BigInteger(bits, 1, rng)\<close>, which draws from the random
  source \<open>rng\<close> and returns a candidate together with the source after the draw, and
  \<open>isPP x t\<close> is \<^verbatim>\<open>x.isProbablePrime(t)\<close>. The loops have no bound, so the functions
  are partial: \<open>None\<close> stands for a search that never ends.
\<close>

partial_function (option) search_prime ::
  "(nat \<Rightarrow> 'r \<Rightarrow> int \<times> 'r) \<Rightarrow> (int \<Rightarrow> nat \<Rightarrow> bool) \<Rightarrow> int \<Rightarrow> nat \<Rightarrow> 'r \<Rightarrow> (int \<times> 'r) option" where
  "search_prime newBig isPP ee bits rng =
     (case newBig bits rng of
        (c, rng') \<Rightarrow>
          if gcd (c - 1) ee = 1 \<and> isPP c 10 then Some (c, rng')
          else search_prime newBig isPP ee bits rng')"

declare search_prime.simps [code]

partial_function (option) search_key ::
  "(nat \<Rightarrow> 'r \<Rightarrow> int \<times> 'r) \<Rightarrow> (int \<Rightarrow> nat \<Rightarrow> bool) \<Rightarrow> nat \<Rightarrow> nat \<Rightarrow> int \<Rightarrow> keyObject \<Rightarrow> 'r \<Rightarrow>
   (keyObject \<times> 'r) option" where
  "search_key newBig isPP B qs ee key rng =
     Option.bind (search_prime newBig isPP ee (B - qs) rng) (\<lambda>(p0, rng1).
     Option.bind (search_prime newBig isPP ee qs rng1) (\<lambda>(q0, rng2).
       let (p, q) = (if p0 \<le> q0 then (q0, p0) else (p0, q0));
           p1 = p - 1;
           q1 = q - 1;
           phi = p1 * q1
       in if gcd phi ee = 1
          then Some (key\<lparr>key_p := Some p, key_q := Some q,
                         key_n := Some (p * q),
                         key_d := Some (modInverse ee phi),
                         key_dmp1 := Some (modInverse ee phi mod p1),
                         key_dmq1 := Some (modInverse ee phi mod q1),
                         key_u := Some (modInverse p q)\<rparr>, rng2)
          else search_key newBig isPP B qs ee
                 (key\<lparr>key_p := Some p, key_q := Some q\<rparr>) rng2))"

declare search_key.simps [code]

text \<open>
  The part of \<^verbatim>\<open>generate(B, E, callback)\<close> from \<^verbatim>\<open>var key = new keyObject()\<close> to the end
  of the outer loop: the key handed to the callback, and the random source after it.
\<close>

text \<open>
  Reading the argument \<^verbatim>\<open>E\<close> is left to two more parameters: \<open>fromHex E\<close> is
  \<^verbatim>\<open>new BigInteger(E, 16)\<close> (\<^verbatim>\<open>jsbn.js\<close>), and \<open>parseInt E 16\<close> is the builtin
  \<^verbatim>\<open>parseInt(E, 16)\<close>, which stops at the first character that is no digit and returns a
  double. The two can differ, and only \<^verbatim>\<open>key.ee\<close> is used in the search.
\<close>

definition generate_js ::
  "(nat \<Rightarrow> 'r \<Rightarrow> int \<times> 'r) \<Rightarrow> (int \<Rightarrow> nat \<Rightarrow> bool) \<Rightarrow> (string \<Rightarrow> int) \<Rightarrow>
   (string \<Rightarrow> nat \<Rightarrow> js_number) \<Rightarrow> nat \<Rightarrow> string \<Rightarrow> 'r \<Rightarrow> (keyObject \<times> 'r) option" where
  "generate_js newBig isPP fromHex parseInt B E rng =
     (let key = new_keyObject;
          qs = B div 2;
          key = key\<lparr>key_e := parseInt E 16\<rparr>;
          key = key\<lparr>key_ee := Some (fromHex E)\<rparr>
      in search_key newBig isPP B qs (fromHex E) key rng)"

section \<open>Key generation by the platform\<close>

text \<open>The options object \<^verbatim>\<open>keyGenOpt\<close>; \<^verbatim>\<open>publicExponent\<close> is a \<^verbatim>\<open>Uint8Array\<close>.\<close>

record keyGenOpt =
  alg_name :: string
  modulusLength :: nat
  publicExponent :: "nat list"
  hash_name :: string

definition keyGenOpt :: "nat \<Rightarrow> keyGenOpt" where
  "keyGenOpt B =
     \<lparr>alg_name = ''RSASSA-PKCS1-v1_5'', modulusLength = B,
      publicExponent = [0x01, 0x00, 0x01], hash_name = ''SHA-256''\<rparr>"

text \<open>The value of a big-endian byte array, to read \<^verbatim>\<open>publicExponent\<close> as a number.\<close>

definition bytes_value :: "nat list \<Rightarrow> int" where
  "bytes_value bs = foldl (\<lambda>acc b. 256 * acc + int b) 0 bs"

text \<open>The three arguments of \<^verbatim>\<open>window.crypto.subtle.generateKey\<close>.\<close>

record request =
  algorithm :: keyGenOpt
  extractable :: bool
  keyUsages :: "string list"

text \<open>
  A promise is looked at once it is settled. The platform is a parameter: whether
  \<^verbatim>\<open>window.crypto.subtle\<close> is there, how the promise of \<^verbatim>\<open>generateKey\<close> settles for a
  request, and how the promise of \<^verbatim>\<open>exportKey('jwk', key.privateKey)\<close> settles for
  a generated key pair of type \<open>'k\<close>.
\<close>

datatype 'a settled = Fulfilled 'a | Rejected

record jwk =
  jwk_n :: string
  jwk_d :: string
  jwk_p :: string
  jwk_q :: string

record 'k platform =
  subtle_available :: bool
  generateKey :: "request \<Rightarrow> 'k settled"
  exportKey :: "'k \<Rightarrow> jwk settled"

text \<open>
  One invocation of the callback is the pair of its arguments: \<^verbatim>\<open>callback(err)\<close> is
  \<open>(Some err, None)\<close> and \<^verbatim>\<open>callback(null, key)\<close> is \<open>(None, Some key)\<close>. The callback is
  the caller's function: for an invocation it returns or throws. The invocations made
  so far are collected in a list, oldest first.
\<close>

type_synonym invocation = "string option \<times> keyObject option"

text \<open>\<^verbatim>\<open>p.then(onFulfilled, onRejected)\<close> on a settled promise: the handler that runs decides
  how the derived promise settles.\<close>

definition promise_then ::
  "'a settled \<times> invocation list \<Rightarrow> ('a \<Rightarrow> invocation list \<Rightarrow> 'b settled \<times> invocation list) \<Rightarrow>
   (invocation list \<Rightarrow> 'b settled \<times> invocation list) \<Rightarrow> 'b settled \<times> invocation list" where
  "promise_then pr onFulfilled onRejected =
     (case pr of
        (Fulfilled v, tr) \<Rightarrow> onFulfilled v tr
      | (Rejected, tr) \<Rightarrow> onRejected tr)"

text \<open>
  \<^verbatim>\<open>onError\<close> calls \<^verbatim>\<open>callback(new Error('Generating key failed!'))\<close>. When the callback
  returns, the handler returns \<^verbatim>\<open>undefined\<close> (\<open>None\<close>) and the derived promise is
  fulfilled with it; when the callback throws, the derived promise is rejected.
\<close>

definition onError ::
  "(invocation \<Rightarrow> unit completion) \<Rightarrow> invocation list \<Rightarrow> 'a option settled \<times> invocation list" where
  "onError callback tr =
     (let call = (Some ''Generating key failed!'', None) in
      (case callback call of
         Returned _ \<Rightarrow> (Fulfilled None, tr @ [call])
       | Threw \<Rightarrow> (Rejected, tr @ [call])))"

text \<open>\<^verbatim>\<open>onGenerated\<close> returns the promise of \<^verbatim>\<open>exportKey\<close>, which the derived promise follows.\<close>

definition onGenerated ::
  "'k platform \<Rightarrow> 'k \<Rightarrow> invocation list \<Rightarrow> jwk option settled \<times> invocation list" where
  "onGenerated pf k tr =
     (case exportKey pf k of
        Fulfilled j \<Rightarrow> (Fulfilled (Some j), tr)
      | Rejected \<Rightarrow> (Rejected, tr))"

text \<open>\<^verbatim>\<open>base64(base64url)\<close>: the two \<^verbatim>\<open>replace\<close> calls.\<close>

definition base64 :: "string \<Rightarrow> string" where
  "base64 s =
     map (\<lambda>c. if c = CHR ''_'' then CHR ''/'' else c)
       (map (\<lambda>c. if c = CHR ''-'' then CHR ''+'' else c) s)"

text \<open>
  Modelled from the spec: \<^verbatim>\<open>new BigInteger(util.hexstrdump(s), 16)\<close> (\<^verbatim>\<open>util.js\<close> and
  \<^verbatim>\<open>jsbn.js\<close>): the hex dump writes two hexadecimal digits for each character code,
  so the number read back is the string as a big-endian number in base 256.
\<close>

definition hexstr_value :: "string \<Rightarrow> int" where
  "hexstr_value s = foldl (\<lambda>acc c. 256 * acc + int (of_char c)) 0 s"

text \<open>
  \<^verbatim>\<open>onExported(jwk)\<close>. With \<^verbatim>\<open>jwk\<close> \<^verbatim>\<open>undefined\<close> the access \<^verbatim>\<open>jwk.n\<close> throws before the
  callback is reached. Otherwise the key is filled in and \<^verbatim>\<open>callback(null, key)\<close> is
  called; the handler returns \<^verbatim>\<open>undefined\<close> when the callback returns and throws when
  the callback does. \<open>fromHex E\<close> is \<^verbatim>\<open>new BigInteger(E, 16)\<close>.
\<close>

definition onExported ::
  "(invocation \<Rightarrow> unit completion) \<Rightarrow> (string \<Rightarrow> int) \<Rightarrow> string \<Rightarrow> jwk option \<Rightarrow>
   invocation list \<Rightarrow> 'a option settled \<times> invocation list" where
  "onExported callback fromHex E jwk_opt tr =
     (case jwk_opt of
        None \<Rightarrow> (Rejected, tr)
      | Some j \<Rightarrow>
          let key = new_keyObject;
              key = key\<lparr>key_n := Some (hexstr_value (base64 (jwk_n j)))\<rparr>;
              key = key\<lparr>key_ee := Some (fromHex E)\<rparr>;
              key = key\<lparr>key_d := Some (hexstr_value (base64 (jwk_d j)))\<rparr>;
              key = key\<lparr>key_p := Some (hexstr_value (base64 (jwk_p j)))\<rparr>;
              key = key\<lparr>key_q := Some (hexstr_value (base64 (jwk_q j)))\<rparr>;
              key = key\<lparr>key_u := Some (modInverse (the (key_p key)) (the (key_q key)))\<rparr>;
              call = (None, Some key)
          in (case callback call of
                Returned _ \<Rightarrow> (Fulfilled None, tr @ [call])
              | Threw \<Rightarrow> (Rejected, tr @ [call])))"

text \<open>
  The branch of \<^verbatim>\<open>generate\<close> taken when \<^verbatim>\<open>window.crypto.subtle\<close> is there: the request
  passed to \<^verbatim>\<open>generateKey\<close>, and the invocations of the callback that the chain
  \<^verbatim>\<open>.then(onGenerated, onError).then(onExported, onError)\<close> makes.
\<close>

definition generate_native ::
  "'k platform \<Rightarrow> (invocation \<Rightarrow> unit completion) \<Rightarrow> (string \<Rightarrow> int) \<Rightarrow> nat \<Rightarrow> string \<Rightarrow>
   request \<times> invocation list" where
  "generate_native pf callback fromHex B E =
     (let req = \<lparr>algorithm = keyGenOpt B, extractable = True, keyUsages = [''sign'', ''verify'']\<rparr>;
          p0 = (generateKey pf req, []);
          p1 = promise_then p0 (onGenerated pf) (onError callback);
          p2 = (promise_then p1 (onExported callback fromHex E) (onError callback)
                  :: unit option settled \<times> invocation list)
      in (req, snd p2))"

text \<open>
  \<^verbatim>\<open>generate(B, E, callback)\<close>: the request made to the platform, if any, and the
  invocations of the callback. \<open>None\<close> stands for a search that never ends.
\<close>

definition generate ::
  "'k platform \<Rightarrow> (nat \<Rightarrow> 'r \<Rightarrow> int \<times> 'r) \<Rightarrow> (int \<Rightarrow> nat \<Rightarrow> bool) \<Rightarrow> (string \<Rightarrow> int) \<Rightarrow>
   (string \<Rightarrow> nat \<Rightarrow> js_number) \<Rightarrow> 'r \<Rightarrow>
   nat \<Rightarrow> string \<Rightarrow> (invocation \<Rightarrow> unit completion) \<Rightarrow> (request option \<times> invocation list) option" where
  "generate pf newBig isPP fromHex parseInt rng B E callback =
     (if subtle_available pf
      then (case generate_native pf callback fromHex B E of (req, tr) \<Rightarrow> Some (Some req, tr))
      else (case generate_js newBig isPP fromHex parseInt B E rng of
              None \<Rightarrow> None
            | Some (key, rng') \<Rightarrow> Some (None, [(None, Some key)])))"

section \<open>Instances for the examples\<close>

text \<open>
  Values for the parameters of the model, used where a statement is evaluated on a
  concrete run. A random source that is a counter, for a request of two bits: the only
  odd number of two bits with its top bit set is \<open>3\<close>, so every draw returns it.
\<close>

definition two_bit_source :: "nat \<Rightarrow> nat \<Rightarrow> int \<times> nat" where
  "two_bit_source bits k = (3, Suc k)"

text \<open>A random source given by the list of the candidates it will return.\<close>

definition list_source :: "nat \<Rightarrow> int list \<Rightarrow> int \<times> int list" where
  "list_source bits r = (case r of [] \<Rightarrow> (0, []) | c # cs \<Rightarrow> (c, cs))"

text \<open>A primality test that is never wrong.\<close>

definition exact_test :: "int \<Rightarrow> nat \<Rightarrow> bool" where
  "exact_test x t = is_prime x"

text \<open>A platform whose key service is there and rejects every request.\<close>

definition rejecting_platform :: "unit platform" where
  "rejecting_platform =
     \<lparr>subtle_available = True, generateKey = (\<lambda>r. Rejected), exportKey = (\<lambda>k. Rejected)\<rparr>"

text \<open>A callback that throws on an error (\<^verbatim>\<open>if (err) throw err;\<close>), and one that returns.\<close>

definition throwing_callback :: "invocation \<Rightarrow> unit completion" where
  "throwing_callback call = (case fst call of Some err \<Rightarrow> Threw | None \<Rightarrow> Returned ())"

definition returning_callback :: "invocation \<Rightarrow> unit completion" where
  "returning_callback call = Returned ()"

text \<open>
  The builtin \<^verbatim>\<open>parseInt\<close> with radix 16 as far as the examples need it: on a string
  of one to eight hexadecimal digits, which the builtin reads exactly. On any other
  argument this instance answers \<^verbatim>\<open>NaN\<close> and does not follow the builtin.
\<close>

definition short_hex_parseInt :: "string \<Rightarrow> nat \<Rightarrow> js_number" where
  "short_hex_parseInt s radix =
     (if radix = 16 \<and> s \<noteq> [] \<and> length s \<le> 8 \<and> list_all (\<lambda>c. hex_digit c \<noteq> None) s
      then Number (parse_hex s) else NaN)"

text \<open>The request that \<^verbatim>\<open>generate\<close> hands to \<^verbatim>\<open>generateKey\<close> for a modulus of \<open>B\<close> bits.\<close>

definition native_request :: "nat \<Rightarrow> request" where
  "native_request B =
     \<lparr>algorithm = keyGenOpt B, extractable = True, keyUsages = [''sign'', ''verify'']\<rparr>"

text \<open>
  A platform whose key service fulfils a request only if the public exponent asked
  for is \<open>65537\<close>, rejects every other request, and exports the same key every time.
\<close>

definition example_jwk :: jwk where
  "example_jwk = \<lparr>jwk_n = ''ab'', jwk_d = ''c'', jwk_p = ''d'', jwk_q = ''e''\<rparr>"

definition exponent_65537_platform :: "unit platform" where
  "exponent_65537_platform =
     \<lparr>subtle_available = True,
      generateKey = (\<lambda>r. if bytes_value (publicExponent (algorithm r)) = 65537
                         then Fulfilled () else Rejected),
      exportKey = (\<lambda>k. Fulfilled example_jwk)\<rparr>"

section \<open>What the search establishes\<close>

text \<open>
  The facts about a key that the search loop of \<^verbatim>\<open>generate\<close> sets up before it leaves:
  both numbers passed the two tests of the inner loops, they are ordered by the swap,
  the third test on \<open>phi\<close> succeeded, and the remaining fields were computed from them.
\<close>

definition search_post :: "int \<Rightarrow> (int \<Rightarrow> nat \<Rightarrow> bool) \<Rightarrow> keyObject \<Rightarrow> bool" where
  "search_post ee isPP key =
     (\<exists>p q. key_p key = Some p \<and> key_q key = Some q \<and> q \<le> p \<and>
        isPP p 10 \<and> isPP q 10 \<and> gcd (p - 1) ee = 1 \<and> gcd (q - 1) ee = 1 \<and>
        gcd ((p - 1) * (q - 1)) ee = 1 \<and>
        key_n key = Some (p * q) \<and>
        key_d key = Some (modInverse ee ((p - 1) * (q - 1))) \<and>
        key_dmp1 key = Some (modInverse ee ((p - 1) * (q - 1)) mod (p - 1)) \<and>
        key_dmq1 key = Some (modInverse ee ((p - 1) * (q - 1)) mod (q - 1)) \<and>
        key_u key = Some (modInverse p q))"

section \<open>Powers modulo a prime\<close>

text \<open>
  What follows from \<open>is_prime\<close>: a prime is coprime to what it does not divide, it
  divides the inner binomial coefficients, and so \<open>a ^ p\<close> and \<open>a\<close> agree modulo \<open>p\<close>.
\<close>

lemma is_prime_divisors:
  assumes "is_prime p" "k dvd p" "0 < k"
  shows "k = 1 \<or> k = p"
proof -
  from assms(1) have p: "1 < p" and nd: "\<And>j. 2 \<le> j \<Longrightarrow> j \<le> p - 1 \<Longrightarrow> \<not> j dvd p"
    by (auto simp: is_prime_def)
  have "k \<le> p" using assms(2) p by (intro zdvd_imp_le) auto
  with nd[of k] assms show ?thesis by force
qed

lemma is_prime_coprime:
  assumes "is_prime p" "\<not> p dvd a"
  shows "coprime p a"
proof (rule coprimeI)
  fix c assume c: "c dvd p" "c dvd a"
  have "p \<noteq> 0" using assms(1) by (auto simp: is_prime_def)
  then have "c \<noteq> 0" using c(1) by auto
  then have "0 < \<bar>c\<bar>" by simp
  moreover have "\<bar>c\<bar> dvd p" using c(1) by simp
  ultimately have "\<bar>c\<bar> = 1 \<or> \<bar>c\<bar> = p" using is_prime_divisors[OF assms(1)] by blast
  moreover have "\<bar>c\<bar> \<noteq> p" using c(2) assms(2) by (metis abs_dvd_iff)
  ultimately show "is_unit c" by simp
qed

lemma is_prime_dvd_choose:
  assumes "is_prime p" "0 < k" "k < nat p"
  shows "p dvd int (nat p choose k)"
proof -
  have p: "0 < p" using assms(1) by (simp add: is_prime_def)
  have "k * (nat p choose k) = nat p * ((nat p - 1) choose (k - 1))"
    using assms(2) by (rule times_binomial_minus1_eq)
  then have "int (k * (nat p choose k)) = int (nat p * ((nat p - 1) choose (k - 1)))"
    by simp
  then have "int k * int (nat p choose k) = p * int ((nat p - 1) choose (k - 1))"
    using p by simp
  then have d: "p dvd int k * int (nat p choose k)" by simp
  have "\<not> p dvd int k" using assms(2,3) by (auto dest!: zdvd_imp_le)
  then have "coprime p (int k)" by (rule is_prime_coprime[OF assms(1)])
  with d show ?thesis by (simp add: coprime_dvd_mult_right_iff)
qed

lemma fermat_step:
  assumes "is_prime p"
  shows "((a::int) + 1) ^ nat p mod p = (a ^ nat p + 1) mod p"
proof -
  define P where "P = nat p"
  have P: "0 < P" using assms by (simp add: P_def is_prime_def)
  have split: "{..P} = insert 0 (insert P {1..<P})" using P by auto
  have "(a + 1) ^ P = (\<Sum>k\<le>P. int (P choose k) * a ^ k * 1 ^ (P - k))"
    by (rule binomial_ring)
  also have "\<dots> = (\<Sum>k\<le>P. int (P choose k) * a ^ k)" by simp
  also have "\<dots> = 1 + (a ^ P + (\<Sum>k\<in>{1..<P}. int (P choose k) * a ^ k))"
    using P by (simp add: split)
  finally have eq: "(a + 1) ^ P = (a ^ P + 1) + (\<Sum>k\<in>{1..<P}. int (P choose k) * a ^ k)"
    by simp
  have "p dvd (\<Sum>k\<in>{1..<P}. int (P choose k) * a ^ k)"
  proof (rule dvd_sum)
    fix k assume "k \<in> {1..<P}"
    then have "p dvd int (P choose k)"
      unfolding P_def using assms by (intro is_prime_dvd_choose) auto
    then show "p dvd int (P choose k) * a ^ k" by simp
  qed
  then show ?thesis unfolding eq P_def[symmetric] by (metis dvd_def mod_mult_self2)
qed

lemma fermat_nat:
  assumes "is_prime p"
  shows "(int a) ^ nat p mod p = int a mod p"
proof (induction a)
  case 0
  have "0 < nat p" using assms by (simp add: is_prime_def)
  then show ?case by (simp add: power_0_left)
next
  case (Suc a)
  have "int (Suc a) ^ nat p mod p = (int a + 1) ^ nat p mod p" by (simp add: add.commute)
  also have "\<dots> = (int a ^ nat p + 1) mod p" by (rule fermat_step[OF assms])
  also have "\<dots> = (int a ^ nat p mod p + 1) mod p" by (simp add: mod_add_left_eq)
  also have "\<dots> = (int a mod p + 1) mod p" by (simp only: Suc.IH)
  also have "\<dots> = (int a + 1) mod p" by (rule mod_add_left_eq)
  also have "\<dots> = int (Suc a) mod p" by (simp add: add.commute)
  finally show ?case .
qed

lemma fermat_little:
  assumes "is_prime p"
  shows "(a::int) ^ nat p mod p = a mod p"
proof -
  have p: "0 < p" using assms by (simp add: is_prime_def)
  have "a ^ nat p mod p = (a mod p) ^ nat p mod p" by (simp add: power_mod)
  also have "\<dots> = int (nat (a mod p)) ^ nat p mod p" using p by simp
  also have "\<dots> = int (nat (a mod p)) mod p" by (rule fermat_nat[OF assms])
  also have "\<dots> = a mod p" using p by simp
  finally show ?thesis .
qed

lemma fermat_unit:
  assumes "is_prime p" "\<not> p dvd a"
  shows "(a::int) ^ (nat p - 1) mod p = 1"
proof -
  have p: "1 < p" using assms(1) by (simp add: is_prime_def)
  then have P: "nat p = Suc (nat p - 1)" by simp
  have "a ^ nat p mod p = a mod p" by (rule fermat_little[OF assms(1)])
  then have "p dvd a ^ nat p - a" by (simp add: mod_eq_dvd_iff)
  moreover have "a ^ nat p - a = a * (a ^ (nat p - 1) - 1)"
    by (subst P) (simp add: algebra_simps)
  ultimately have "p dvd a * (a ^ (nat p - 1) - 1)" by simp
  moreover have "coprime p a" by (rule is_prime_coprime[OF assms])
  ultimately have "p dvd a ^ (nat p - 1) - 1" by (simp add: coprime_dvd_mult_right_iff)
  then have "a ^ (nat p - 1) mod p = 1 mod p" by (simp add: mod_eq_dvd_iff)
  then show ?thesis using p by simp
qed

lemma fermat_exp:
  assumes "is_prime p"
  shows "(a::int) ^ (1 + j * (nat p - 1)) mod p = a mod p"
proof (induction j)
  case 0
  show ?case by simp
next
  case (Suc j)
  have P: "0 < nat p" using assms by (simp add: is_prime_def)
  then have "1 + Suc j * (nat p - 1) = nat p + j * (nat p - 1)" by simp
  then have "a ^ (1 + Suc j * (nat p - 1)) = a ^ (nat p + j * (nat p - 1))"
    by (simp only:)
  then have "a ^ (1 + Suc j * (nat p - 1)) mod p = (a ^ nat p * a ^ (j * (nat p - 1))) mod p"
    by (simp only: power_add)
  also have "\<dots> = ((a ^ nat p mod p) * a ^ (j * (nat p - 1))) mod p"
    by (simp add: mod_mult_left_eq)
  also have "\<dots> = ((a mod p) * a ^ (j * (nat p - 1))) mod p"
    by (simp only: fermat_little[OF assms])
  also have "\<dots> = (a * a ^ (j * (nat p - 1))) mod p"
    by (simp add: mod_mult_left_eq)
  also have "\<dots> = a ^ (1 + j * (nat p - 1)) mod p" by simp
  also have "\<dots> = a mod p" by (rule Suc.IH)
  finally show ?case .
qed

lemma power_cycle_prime:
  assumes "is_prime p" "0 < k" "(p - 1) dvd (k - 1)"
  shows "(a::int) ^ nat k mod p = a mod p"
proof -
  have p: "1 < p" using assms(1) by (simp add: is_prime_def)
  from assms(3) obtain j where j: "k - 1 = (p - 1) * j" by (auto simp: dvd_def)
  have "0 \<le> j"
  proof (rule ccontr)
    assume "\<not> 0 \<le> j"
    then have "j \<le> -1" by simp
    then have "(p - 1) * j \<le> (p - 1) * (-1)" using p by (intro mult_left_mono) auto
    with j assms(2) p show False by simp
  qed
  have "k = 1 + (p - 1) * j" using j by simp
  then have "nat k = 1 + nat j * (nat p - 1)"
    using \<open>0 \<le> j\<close> p by (simp add: nat_add_distrib nat_mult_distrib nat_diff_distrib mult.commute)
  then show ?thesis using fermat_exp[OF assms(1), of a "nat j"] by simp
qed

lemma valid_key_power_cycle:
  assumes "valid_key n e d p q u"
  shows "(x::int) ^ nat (d * e) mod n = x mod n"
proof -
  from assms have pp: "is_prime p" and pq: "is_prime q" and lt: "q < p" and n: "n = p * q"
    and e: "0 < e" and d: "0 < d" and de: "(d * e) mod ((p - 1) * (q - 1)) = 1"
    by (auto simp: valid_key_def)
  have k: "0 < d * e" using e d by simp
  have "(p - 1) * (q - 1) dvd d * e - 1"
    using de by (metis dvd_minus_mod)
  then have dp: "(p - 1) dvd d * e - 1" and dq: "(q - 1) dvd d * e - 1"
    by (auto elim: dvd_mult_left dvd_mult_right)
  have "x ^ nat (d * e) mod p = x mod p" by (rule power_cycle_prime[OF pp k dp])
  then have 1: "p dvd x ^ nat (d * e) - x" by (simp add: mod_eq_dvd_iff)
  have "x ^ nat (d * e) mod q = x mod q" by (rule power_cycle_prime[OF pq k dq])
  then have 2: "q dvd x ^ nat (d * e) - x" by (simp add: mod_eq_dvd_iff)
  have "0 < q" using pq by (simp add: is_prime_def)
  then have "\<not> p dvd q" using lt by (auto dest: zdvd_imp_le)
  then have "coprime p q" by (rule is_prime_coprime[OF pp])
  then have "p * q dvd x ^ nat (d * e) - x" using 1 2 by (simp add: divides_mult)
  then show ?thesis unfolding n by (simp add: mod_eq_dvd_iff)
qed

lemma modInverse_correct:
  assumes "coprime x m" "1 < m"
  shows "(x * modInverse x m) mod m = 1" "0 \<le> modInverse x m" "modInverse x m < m"
proof -
  obtain a b where ab: "a * x + b * m = 1"
    using assms(1) bezout_int[of x m] by auto
  define y where "y = a mod m"
  have "(x * y) mod m = (x * a) mod m" by (simp add: y_def mod_mult_right_eq)
  also have "x * a = 1 - b * m" using ab by (simp add: algebra_simps)
  also have "1 - b * m = 1 + (- b) * m" by simp
  also have "(1 + (- b) * m) mod m = 1 mod m" by (rule mod_mult_self1)
  also have "1 mod m = 1" using assms(2) by simp
  finally have y1: "(x * y) mod m = 1" .
  have "y \<in> set [0..m - 1]" using assms(2) by (simp add: y_def)
  with y1 have "List.find (\<lambda>y. (x * y) mod m = 1) [0..m - 1] \<noteq> None"
    by (auto simp: find_None_iff)
  then obtain z where z: "List.find (\<lambda>y. (x * y) mod m = 1) [0..m - 1] = Some z" by auto
  then have "(x * z) mod m = 1" "z \<in> set [0..m - 1]"
    by (auto simp: find_Some_iff)
  moreover have "modInverse x m = z" by (simp add: modInverse_def z)
  ultimately show "(x * modInverse x m) mod m = 1" "0 \<le> modInverse x m" "modInverse x m < m"
    by auto
qed

section \<open>Facts shared by the claims\<close>

text \<open>
  The key of the examples: \<open>n = 143 = 13 * 11\<close>, \<open>e = 7\<close>, \<open>d = 103\<close>, \<open>u = 6\<close>.
\<close>

lemma toy_key_valid: "valid_key 143 7 103 13 11 6"
  by code_simp

lemma valid_key_modulus: "valid_key n e d p q u \<Longrightarrow> 1 < n"
proof -
  assume v: "valid_key n e d p q u"
  then have "1 < p" "1 < q" "n = p * q" by (auto simp: valid_key_def is_prime_def)
  then show "1 < n" by (metis less_1_mult)
qed

lemma blind_private_unblind_core:
  assumes v: "valid_key n e d p q u" and c: "gcd ub n = 1"
  shows "((((m * (modInverse ub n ^ nat e mod n)) mod n) ^ nat d mod n) * ub) mod n = m ^ nat d mod n"
proof -
  define ri where "ri = modInverse ub n"
  have n: "1 < n" using v by (rule valid_key_modulus)
  have "coprime ub n" using c by (simp add: coprime_iff_gcd_eq_1)
  then have inv: "(ub * ri) mod n = 1" unfolding ri_def using n by (rule modInverse_correct(1))
  have e: "0 < e" and d: "0 < d" using v by (auto simp: valid_key_def)
  have ed: "nat e * nat d = nat (d * e)" using e d by (simp add: nat_mult_distrib mult.commute)
  have "((m * (ri ^ nat e mod n)) mod n) ^ nat d mod n = (m * ri ^ nat e) ^ nat d mod n"
    by (simp add: power_mod mod_mult_right_eq)
  also have "\<dots> = (m ^ nat d * ri ^ nat (d * e)) mod n"
    by (simp add: power_mult_distrib power_mult[symmetric] ed)
  also have "\<dots> = (m ^ nat d * (ri ^ nat (d * e) mod n)) mod n"
    by (simp add: mod_mult_right_eq)
  also have "\<dots> = (m ^ nat d * (ri mod n)) mod n"
    by (simp only: valid_key_power_cycle[OF v])
  also have "\<dots> = (m ^ nat d * ri) mod n" by (simp add: mod_mult_right_eq)
  finally have priv: "((m * (ri ^ nat e mod n)) mod n) ^ nat d mod n = (m ^ nat d * ri) mod n" .
  have "((((m * (ri ^ nat e mod n)) mod n) ^ nat d mod n) * ub) mod n
        = (((m ^ nat d * ri) mod n) * ub) mod n" by (simp only: priv)
  also have "\<dots> = (m ^ nat d * (ri * ub)) mod n" by (simp add: mod_mult_left_eq mult.assoc)
  also have "\<dots> = (m ^ nat d * ((ub * ri) mod n)) mod n"
    by (simp add: mod_mult_right_eq mult.commute)
  also have "\<dots> = m ^ nat d mod n" by (simp add: inv)
  finally show ?thesis unfolding ri_def .
qed

lemma verify_sign_mod:
  assumes "valid_key n e d p q u"
  shows "verify (sign m d n) e n = m mod n"
proof -
  have e: "0 < e" and d: "0 < d" using assms by (auto simp: valid_key_def)
  have ed: "nat d * nat e = nat (d * e)" using e d by (simp add: nat_mult_distrib)
  have "verify (sign m d n) e n = (m ^ nat d mod n) ^ nat e mod n"
    by (simp add: verify_def sign_def modPow_def modPowInt_def)
  also have "\<dots> = m ^ nat (d * e) mod n"
    by (simp add: power_mod power_mult[symmetric] ed)
  also have "\<dots> = m mod n" by (rule valid_key_power_cycle[OF assms])
  finally show ?thesis .
qed

lemma search_prime_accepts:
  assumes "search_prime newBig isPP ee bits rng = Some r"
  shows "gcd (fst r - 1) ee = 1 \<and> isPP (fst r) 10"
proof (rule search_prime.raw_induct
    [where P = "\<lambda>newBig isPP ee bits rng r. gcd (fst r - 1) ee = 1 \<and> isPP (fst r) 10",
     OF _ assms], goal_cases)
  case (1 sp newBig isPP ee bits rng r)
  obtain c rng' where c: "newBig bits rng = (c, rng')" by (cases "newBig bits rng")
  show ?case
  proof (cases "gcd (c - 1) ee = 1 \<and> isPP c 10")
    case True
    with 1(2) c show ?thesis by auto
  next
    case False
    with 1(2) c have "sp newBig isPP ee bits rng' = Some r" by auto
    then show ?thesis by (rule 1(1))
  qed
qed


lemma search_key_result:
  assumes "search_key newBig isPP B qs ee key rng = Some r"
  shows "key_e (fst r) = key_e key \<and> key_ee (fst r) = key_ee key \<and> search_post ee isPP (fst r)"
proof (rule search_key.raw_induct
    [where P = "\<lambda>newBig isPP B qs ee key rng r.
       key_e (fst r) = key_e key \<and> key_ee (fst r) = key_ee key \<and> search_post ee isPP (fst r)",
     OF _ assms], goal_cases)
  case (1 sk newBig isPP B qs ee key rng r)
  from 1(2) obtain p0 rng1 where p0: "search_prime newBig isPP ee (B - qs) rng = Some (p0, rng1)"
    by (auto simp: bind_eq_Some_conv)
  with 1(2) obtain q0 rng2 where q0: "search_prime newBig isPP ee qs rng1 = Some (q0, rng2)"
    by (auto simp: bind_eq_Some_conv)
  define p where "p = (if p0 \<le> q0 then q0 else p0)"
  define q where "q = (if p0 \<le> q0 then p0 else q0)"
  have pq: "(if p0 \<le> q0 then (q0, p0) else (p0, q0)) = (p, q)" by (simp add: p_def q_def)
  have acc: "gcd (p - 1) ee = 1" "isPP p 10" "gcd (q - 1) ee = 1" "isPP q 10" "q \<le> p"
    using search_prime_accepts[OF p0] search_prime_accepts[OF q0] by (auto simp: p_def q_def)
  show ?case
  proof (cases "gcd ((p - 1) * (q - 1)) ee = 1")
    case True
    with 1(2) p0 q0 pq have "r = (key\<lparr>key_p := Some p, key_q := Some q,
                         key_n := Some (p * q),
                         key_d := Some (modInverse ee ((p - 1) * (q - 1))),
                         key_dmp1 := Some (modInverse ee ((p - 1) * (q - 1)) mod (p - 1)),
                         key_dmq1 := Some (modInverse ee ((p - 1) * (q - 1)) mod (q - 1)),
                         key_u := Some (modInverse p q)\<rparr>, rng2)"
      by (simp add: Let_def)
    with acc True show ?thesis by (simp add: search_post_def)
  next
    case False
    with 1(2) p0 q0 pq have "sk newBig isPP B qs ee (key\<lparr>key_p := Some p, key_q := Some q\<rparr>) rng2 = Some r"
      by (simp add: Let_def)
    from 1(1)[OF this] show ?thesis by simp
  qed
qed

section \<open>What the combination step computes\<close>

text \<open>
  For well-formed key material with odd primes, the half exponentiations are the
  residues of \<open>m ^ d mod n\<close>, and the value of \<^verbatim>\<open>t.multiply(p).add(xp)\<close> is
  \<open>m ^ d mod n\<close> or exceeds it by \<open>n\<close>; the latter happens exactly when the first branch
  of the combination step leaves \<open>t = q\<close>.
\<close>

lemma half_exp_power:
  assumes pr: "is_prime p" and p2: "2 < p" and d: "0 < d" and dv: "(p - 1) dvd (d * e - 1)"
  shows "half_exp m d p = m ^ nat d mod p"
proof -
  define r where "r = d mod (p - 1)"
  define k where "k = d div (p - 1)"
  have p1: "0 < p - 1" using p2 by simp
  have r0: "0 \<le> r" and rp: "r < p - 1" using p1 by (simp_all add: r_def)
  have k0: "0 \<le> k" using p1 d by (simp add: k_def pos_imp_zdiv_nonneg_iff)
  have dk: "d = (p - 1) * k + r" by (simp add: r_def k_def)
  have rpos: "0 < r"
  proof (rule ccontr)
    assume "\<not> 0 < r"
    with r0 have "r = 0" by simp
    then have "(p - 1) dvd d" by (simp add: r_def mod_eq_0_iff_dvd)
    then have a: "(p - 1) dvd d * e" by simp
    from a dv have "(p - 1) dvd d * e - (d * e - 1)" by (rule dvd_diff)
    then have "(p - 1) dvd 1" by simp
    then have "p - 1 = 1" using p1 by simp
    with p2 show False by simp
  qed
  have "0 \<le> (p - 1) * k" using p1 k0 by simp
  then have "nat ((p - 1) * k + r) = nat ((p - 1) * k) + nat r"
    using r0 by (rule nat_add_distrib)
  moreover have "nat ((p - 1) * k) = nat (p - 1) * nat k"
    using p1 by (simp add: nat_mult_distrib)
  moreover have "nat (p - 1) = nat p - 1" using p1 by (simp add: nat_diff_distrib)
  ultimately have nd: "nat d = (nat p - 1) * nat k + nat r" using dk by simp
  have he: "half_exp m d p = (m mod p) ^ nat r mod p"
    by (simp add: half_exp_def modPow_def r_def)
  show ?thesis
  proof (cases "p dvd m")
    case True
    then have "m mod p = 0" by (simp add: mod_eq_0_iff_dvd)
    moreover have "0 < nat r" using rpos by simp
    ultimately have "half_exp m d p = 0" by (simp add: he power_0_left)
    moreover have "0 < nat d" using d by simp
    then have "m dvd m ^ nat d" by (metis dvd_power)
    with True have "p dvd m ^ nat d" by (rule dvd_trans)
    then have "m ^ nat d mod p = 0" by (simp add: mod_eq_0_iff_dvd)
    ultimately show ?thesis by simp
  next
    case False
    have u: "m ^ (nat p - 1) mod p = 1" by (rule fermat_unit[OF pr False])
    have "m ^ nat d mod p = ((m ^ (nat p - 1)) ^ nat k * m ^ nat r) mod p"
      by (simp only: nd power_add power_mult)
    also have "\<dots> = (((m ^ (nat p - 1)) ^ nat k mod p) * m ^ nat r) mod p"
      by (rule mod_mult_left_eq[symmetric])
    also have "(m ^ (nat p - 1)) ^ nat k mod p = ((m ^ (nat p - 1)) mod p) ^ nat k mod p"
      by (rule power_mod[symmetric])
    also have "\<dots> = 1 mod p" by (simp only: u power_one)
    also have "((1 mod p) * m ^ nat r) mod p = m ^ nat r mod p"
      by (simp only: mod_mult_left_eq mult_1)
    also have "\<dots> = (m mod p) ^ nat r mod p" by (simp add: power_mod)
    finally show ?thesis by (simp add: he)
  qed
qed

lemma crt_t_cases:
  assumes "0 < q"
  shows "crt_t DB xp xq q u = ((xq - xp) * u) mod q \<or>
         (crt_t DB xp xq q u = q \<and> ((xq - xp) * u) mod q = 0)"
proof (cases "subtract_limb0 DB xq xp = Some 0")
  case False
  then show ?thesis by (simp add: crt_t_def)
next
  case True
  define s where "s = ((xp - xq) * u) mod q"
  have t: "crt_t DB xp xq q u = q - s" using True by (simp add: crt_t_def s_def)
  have neg: "(xq - xp) * u = - ((xp - xq) * u)" by (simp add: algebra_simps)
  have s0: "0 \<le> s" and sq: "s < q" using assms by (simp_all add: s_def)
  show ?thesis
  proof (cases "s = 0")
    case True
    then have "((xq - xp) * u) mod q = 0"
      unfolding neg s_def by (simp add: zmod_zminus1_eq_if)
    with t True show ?thesis by simp
  next
    case False
    then have "((xq - xp) * u) mod q = q - s"
      unfolding neg s_def by (simp add: zmod_zminus1_eq_if)
    with t show ?thesis by simp
  qed
qed

lemma crt_t_limb_zero:
  assumes "xp = xq" "xq \<noteq> 0" "0 < q"
  shows "crt_t DB xp xq q u = q"
  using assms by (simp add: crt_t_def subtract_limb0_def)

lemma valid_key_facts:
  assumes "valid_key n e d p q u"
  shows "is_prime p" "is_prime q" "q < p" "n = p * q" "0 < e" "0 < d"
    "(p - 1) dvd (d * e - 1)" "(q - 1) dvd (d * e - 1)" "coprime p q" "1 < q" "1 < p"
    "u = modInverse p q"
proof -
  from assms show pp: "is_prime p" and pq: "is_prime q" and lt: "q < p" and "n = p * q"
    and "0 < e" and "0 < d" and "u = modInverse p q"
    by (auto simp: valid_key_def)
  from assms have de: "(d * e) mod ((p - 1) * (q - 1)) = 1" by (simp add: valid_key_def)
  have "(p - 1) * (q - 1) dvd d * e - 1" using de by (metis dvd_minus_mod)
  then show "(p - 1) dvd (d * e - 1)" "(q - 1) dvd (d * e - 1)"
    by (auto elim: dvd_mult_left dvd_mult_right)
  show q1: "1 < q" using pq by (simp add: is_prime_def)
  show "1 < p" using pp by (simp add: is_prime_def)
  have "\<not> p dvd q" using lt q1 by (auto dest: zdvd_imp_le)
  then show "coprime p q" by (rule is_prime_coprime[OF pp])
qed

lemma crt_garner:
  assumes v: "valid_key n e d p q u" and q2: "2 < q"
  shows "half_exp m d p = (m ^ nat d mod n) mod p"
    "half_exp m d q = (m ^ nat d mod n) mod q"
    "(((half_exp m d q - half_exp m d p) * u) mod q) * p + half_exp m d p = m ^ nat d mod n"
proof -
  define y where "y = m ^ nat d mod n"
  define xp where "xp = half_exp m d p"
  define xq where "xq = half_exp m d q"
  note f = valid_key_facts[OF v]
  have p2: "2 < p" using q2 f(3) by simp
  have n0: "0 < n" using f(4,10,11) by simp
  have "xp = m ^ nat d mod p" unfolding xp_def by (rule half_exp_power[OF f(1) p2 f(6) f(7)])
  also have "\<dots> = y mod p" unfolding y_def f(4) by (simp add: mod_mod_cancel)
  finally have xp: "xp = y mod p" .
  then show "half_exp m d p = (m ^ nat d mod n) mod p" by (simp only: xp_def y_def)
  have "xq = m ^ nat d mod q" unfolding xq_def by (rule half_exp_power[OF f(2) q2 f(6) f(8)])
  also have "\<dots> = y mod q" unfolding y_def f(4) by (simp add: mod_mod_cancel)
  finally have xq: "xq = y mod q" .
  then show "half_exp m d q = (m ^ nat d mod n) mod q" by (simp only: xq_def y_def)
  define t0 where "t0 = ((xq - xp) * u) mod q"
  define r0 where "r0 = t0 * p + xp"
  have pu: "(p * u) mod q = 1" unfolding f(12) by (rule modInverse_correct(1)[OF f(9) f(10)])
  have xp0: "0 \<le> xp" and xpp: "xp < p" using f(11) by (simp_all add: xp)
  have t00: "0 \<le> t0" and t0q: "t0 < q" using f(10) by (simp_all add: t0_def)
  have r00: "0 \<le> r0" using t00 xp0 f(11) by (simp add: r0_def)
  have "t0 * p \<le> (q - 1) * p" using t0q f(11) by (intro mult_right_mono) auto
  then have r0n: "r0 < n" using xpp by (simp add: r0_def f(4) algebra_simps)
  have y0: "0 \<le> y" and yn: "y < n" using n0 by (simp_all add: y_def)
  have "r0 mod p = xp mod p" by (simp add: r0_def)
  then have rp: "r0 mod p = y mod p" by (simp add: xp)
  have "r0 mod q = (t0 * p + xp) mod q" by (simp add: r0_def)
  also have "\<dots> = ((t0 * p) mod q + xp) mod q" by (simp add: mod_add_left_eq)
  also have "(t0 * p) mod q = (((xq - xp) * u) * p) mod q"
    unfolding t0_def by (rule mod_mult_left_eq)
  also have "((xq - xp) * u) * p = (xq - xp) * (p * u)" by (simp add: algebra_simps)
  also have "((xq - xp) * (p * u)) mod q = ((xq - xp) * ((p * u) mod q)) mod q"
    by (rule mod_mult_right_eq[symmetric])
  also have "\<dots> = (xq - xp) mod q" by (simp add: pu)
  also have "((xq - xp) mod q + xp) mod q = (xq - xp + xp) mod q" by (rule mod_add_left_eq)
  also have "\<dots> = y mod q" by (simp add: xq)
  finally have rq: "r0 mod q = y mod q" .
  have "p dvd r0 - y" using rp by (simp add: mod_eq_dvd_iff)
  moreover have "q dvd r0 - y" using rq by (simp add: mod_eq_dvd_iff)
  ultimately have "p * q dvd r0 - y" using f(9) by (simp add: divides_mult)
  then have "r0 mod n = y mod n" by (simp add: mod_eq_dvd_iff f(4))
  then have "r0 = y" using r00 r0n y0 yn by simp
  then have "(((xq - xp) * u) mod q) * p + xp = y" by (simp add: r0_def t0_def)
  then show "(((half_exp m d q - half_exp m d p) * u) mod q) * p + half_exp m d p = m ^ nat d mod n"
    by (simp only: xp_def xq_def y_def)
qed

lemma decrypt_unblinded_value:
  assumes "\<not> rsa_blinding cfg"
  shows "fst (decrypt DB cfg drawn st m n e d p q u)
         = crt_t DB (half_exp m d p) (half_exp m d q) q u * p + half_exp m d p"
  using assms by (simp add: decrypt_def Let_def)

lemma crt_value_cases:
  assumes v: "valid_key n e d p q u" and q2: "2 < q"
  defines "R \<equiv> \<lambda>DB m. crt_t DB (half_exp m d p) (half_exp m d q) q u * p + half_exp m d p"
  shows "R DB m = m ^ nat d mod n \<or> R DB m = n + m ^ nat d mod n"
    "0 < m ^ nat d mod n \<Longrightarrow> m ^ nat d mod n < q \<Longrightarrow> R DB m = n + m ^ nat d mod n"
    "p \<le> m ^ nat d mod n \<Longrightarrow> R DB m = m ^ nat d mod n"
proof -
  note f = valid_key_facts[OF v]
  define y where "y = m ^ nat d mod n"
  define xp where "xp = half_exp m d p"
  define xq where "xq = half_exp m d q"
  have g: "xp = y mod p" "xq = y mod q" "(((xq - xp) * u) mod q) * p + xp = y"
    using crt_garner[OF v q2, of m] by (simp_all add: y_def xp_def xq_def)
  have R: "R DB m = crt_t DB xp xq q u * p + xp" by (simp add: R_def xp_def xq_def)
  have q0: "0 < q" using f(10) by simp
  have xpp: "xp < p" using f(11) by (simp add: g(1))
  have c1: "R DB m = y \<or> R DB m = n + y"
  proof -
    from crt_t_cases[OF q0, of DB xp xq u] show ?thesis
    proof
      assume "crt_t DB xp xq q u = ((xq - xp) * u) mod q"
      then show ?thesis using g(3) by (simp add: R)
    next
      assume a: "crt_t DB xp xq q u = q \<and> ((xq - xp) * u) mod q = 0"
      then have "xp = y" using g(3) by simp
      then show ?thesis using a by (simp add: R f(4) mult.commute)
    qed
  qed
  then show "R DB m = m ^ nat d mod n \<or> R DB m = n + m ^ nat d mod n" by (simp only: y_def)
  have c2: "R DB m = n + y" if "0 < y" "y < q"
  proof -
    have "y < p" using that f(3) by simp
    then have "xp = y" "xq = y" using that by (simp_all add: g)
    then have "crt_t DB xp xq q u = q" using that q0 by (intro crt_t_limb_zero) auto
    then show ?thesis using \<open>xp = y\<close> by (simp add: R f(4) mult.commute)
  qed
  then show "0 < m ^ nat d mod n \<Longrightarrow> m ^ nat d mod n < q \<Longrightarrow> R DB m = n + m ^ nat d mod n"
    by (simp only: y_def)
  have c3: "R DB m = y" if "p \<le> y"
  proof (rule ccontr)
    assume ne: "R DB m \<noteq> y"
    from crt_t_cases[OF q0, of DB xp xq u] have "xp = y"
    proof
      assume "crt_t DB xp xq q u = ((xq - xp) * u) mod q"
      then have "R DB m = y" using g(3) by (simp add: R)
      with ne show ?thesis by simp
    next
      assume "crt_t DB xp xq q u = q \<and> ((xq - xp) * u) mod q = 0"
      then show ?thesis using g(3) by simp
    qed
    with xpp that show False by simp
  qed
  then show "p \<le> m ^ nat d mod n \<Longrightarrow> R DB m = m ^ nat d mod n" by (simp only: y_def)
qed

text \<open>
  Without blinding, for well-formed key material with \<open>q > 2\<close>: the result is
  \<open>m ^ d mod n\<close> or \<open>n + m ^ d mod n\<close>; it is the latter whenever \<open>0 < m ^ d mod n < q\<close>,
  and the former whenever \<open>m ^ d mod n \<ge> p\<close>.
\<close>

theorem decrypt_unblinded_characterised:
  assumes v: "valid_key n e d p q u" and q2: "2 < q" and off: "\<not> rsa_blinding cfg"
  shows "(fst (decrypt DB cfg drawn st m n e d p q u) = modPow m d n \<or>
          fst (decrypt DB cfg drawn st m n e d p q u) = n + modPow m d n) \<and>
         (0 < modPow m d n \<and> modPow m d n < q \<longrightarrow>
            fst (decrypt DB cfg drawn st m n e d p q u) = n + modPow m d n) \<and>
         (p \<le> modPow m d n \<longrightarrow>
            fst (decrypt DB cfg drawn st m n e d p q u) = modPow m d n)"
  unfolding decrypt_unblinded_value[OF off] modPow_def
  using crt_value_cases[OF v q2, where DB = DB and m = m] by blast

text \<open>
  On the key of the examples: \<open>m = 5\<close> decrypts to \<open>125\<close>, and \<open>m = 6\<close>, where \<open>m ^ d mod n = 7\<close>, to \<open>150\<close>.
\<close>

theorem decrypt_unblinded_characterised_witness:
  "valid_key 143 7 103 13 11 6 \<and> (2::int) < 11 \<and> \<not> rsa_blinding \<lparr>rsa_blinding = False\<rparr> \<and>
   modPow 5 103 143 = 125 \<and>
   fst (decrypt 26 \<lparr>rsa_blinding = False\<rparr> 0 initial_blinding 5 143 7 103 13 11 6) = 125 \<and>
   modPow 6 103 143 = 7 \<and>
   fst (decrypt 26 \<lparr>rsa_blinding = False\<rparr> 0 initial_blinding 6 143 7 103 13 11 6) = 150"
proof -
  have h2: "(2::int) < 11" and h3: "\<not> rsa_blinding \<lparr>rsa_blinding = False\<rparr>" by simp_all
  have y5: "modPow 5 103 143 = 125" by (simp add: modPow_def)
  have y6: "modPow 6 103 143 = 7" by (simp add: modPow_def)
  from decrypt_unblinded_characterised[OF toy_key_valid h2 h3,
      where DB = 26 and drawn = 0 and st = initial_blinding and m = 5]
  have a: "fst (decrypt 26 \<lparr>rsa_blinding = False\<rparr> 0 initial_blinding 5 143 7 103 13 11 6) = 125"
    by (simp add: y5)
  from decrypt_unblinded_characterised[OF toy_key_valid h2 h3,
      where DB = 26 and drawn = 0 and st = initial_blinding and m = 6]
  have b: "fst (decrypt 26 \<lparr>rsa_blinding = False\<rparr> 0 initial_blinding 6 143 7 103 13 11 6) = 150"
    by (simp add: y6)
  show ?thesis using toy_key_valid y5 y6 a b by simp
qed

text \<open>
  With blinding, for well-formed key material with \<open>q > 2\<close>: when the unblinder that
  \<^verbatim>\<open>blind\<close> installs is coprime to \<open>n\<close>, the result is \<open>m ^ d mod n\<close>, since \<^verbatim>\<open>unblind\<close>
  reduces modulo \<open>n\<close>; the state left behind is the one \<^verbatim>\<open>blind\<close> installed.
\<close>

theorem decrypt_blinded_correct:
  assumes v: "valid_key n e d p q u" and q2: "2 < q" and on: "rsa_blinding cfg"
    and c: "gcd (unblinder (snd (blind drawn st m n e))) n = 1"
  shows "fst (decrypt DB cfg drawn st m n e d p q u) = modPow m d n \<and>
         snd (decrypt DB cfg drawn st m n e d p q u) = snd (blind drawn st m n e)"
proof -
  define ub where "ub = unblinder (snd (blind drawn st m n e))"
  define m1 where "m1 = fst (blind drawn st m n e)"
  define R1 where "R1 = crt_t DB (half_exp m1 d p) (half_exp m1 d q) q u * p + half_exp m1 d p"
  have c': "gcd ub n = 1" using c by (simp only: ub_def)
  have b: "m1 = (m * (modInverse ub n ^ nat e mod n)) mod n"
    unfolding ub_def m1_def by (simp add: blind_def Let_def modPow_def)
  have dec: "decrypt DB cfg drawn st m n e d p q u
             = ((R1 * ub) mod n, snd (blind drawn st m n e))"
    using on by (simp add: decrypt_def Let_def R1_def m1_def ub_def unblind_def split_beta)
  have "R1 = m1 ^ nat d mod n \<or> R1 = n + m1 ^ nat d mod n"
    unfolding R1_def by (rule crt_value_cases(1)[OF v q2])
  then have "R1 mod n = m1 ^ nat d mod n" by auto
  then have "(R1 * ub) mod n = ((m1 ^ nat d mod n) * ub) mod n"
    by (metis mod_mult_left_eq)
  also have "\<dots> = m ^ nat d mod n"
    unfolding b by (rule blind_private_unblind_core[OF v c'])
  finally show ?thesis by (simp add: dec modPow_def)
qed

text \<open>
  On the key of the examples with \<open>2\<close> drawn, \<open>m = 1\<close> decrypts to \<open>1\<close>.
\<close>

theorem decrypt_blinded_correct_witness:
  "valid_key 143 7 103 13 11 6 \<and> (2::int) < 11 \<and> rsa_blinding \<lparr>rsa_blinding = True\<rparr> \<and>
   gcd (unblinder (snd (blind 2 initial_blinding 1 143 7))) 143 = 1 \<and>
   fst (decrypt 26 \<lparr>rsa_blinding = True\<rparr> 2 initial_blinding 1 143 7 103 13 11 6) = 1 \<and>
   snd (decrypt 26 \<lparr>rsa_blinding = True\<rparr> 2 initial_blinding 1 143 7 103 13 11 6)
     = \<lparr>blinder = 19, unblinder = 2\<rparr>"
proof -
  have h2: "(2::int) < 11" and h3: "rsa_blinding \<lparr>rsa_blinding = True\<rparr>" by simp_all
  have h4: "gcd (unblinder (snd (blind 2 initial_blinding 1 143 7))) 143 = 1" by code_simp
  have s: "snd (blind 2 initial_blinding 1 143 7) = \<lparr>blinder = 19, unblinder = 2\<rparr>" by code_simp
  from decrypt_blinded_correct[OF toy_key_valid h2 h3 h4, where DB = 26]
  show ?thesis using toy_key_valid h4 by (simp add: s modPow_def)
qed

text \<open>
  Encryption followed by decryption gives the message back with blinding, and without
  blinding for the messages from \<open>p\<close> upwards.
\<close>

lemma private_of_encrypt:
  assumes v: "valid_key n e d p q u" and m: "0 \<le> m" "m < n"
  shows "modPow (encrypt m e n) d n = m"
proof -
  have e: "0 < e" and d: "0 < d" using v by (auto simp: valid_key_def)
  have ed: "nat e * nat d = nat (d * e)" using e d by (simp add: nat_mult_distrib mult.commute)
  have "modPow (encrypt m e n) d n = (m ^ nat e mod n) ^ nat d mod n"
    by (simp add: encrypt_def modPow_def modPowInt_def)
  also have "\<dots> = m ^ nat (d * e) mod n"
    by (simp add: power_mod power_mult[symmetric] ed)
  also have "\<dots> = m mod n" by (rule valid_key_power_cycle[OF v])
  finally show ?thesis using m by simp
qed

theorem decrypt_encrypt_blinded:
  assumes v: "valid_key n e d p q u" and q2: "2 < q" and on: "rsa_blinding cfg"
    and m: "0 \<le> m" "m < n"
    and c: "gcd (unblinder (snd (blind drawn st (encrypt m e n) n e))) n = 1"
  shows "fst (decrypt DB cfg drawn st (encrypt m e n) n e d p q u) = m"
  using decrypt_blinded_correct[OF v q2 on c, where DB = DB] private_of_encrypt[OF v m]
  by simp

theorem decrypt_encrypt_unblinded:
  assumes v: "valid_key n e d p q u" and q2: "2 < q" and off: "\<not> rsa_blinding cfg"
    and m: "p \<le> m" "m < n"
  shows "fst (decrypt DB cfg drawn st (encrypt m e n) n e d p q u) = m"
proof -
  have "0 < p" using v by (simp add: valid_key_def is_prime_def)
  then have "0 \<le> m" using m(1) by simp
  then have y: "modPow (encrypt m e n) d n = m" using m(2) by (rule private_of_encrypt[OF v])
  from decrypt_unblinded_characterised[OF v q2 off, where DB = DB and drawn = drawn and st = st
      and m = "encrypt m e n"]
  show ?thesis using m(1) by (simp add: y)
qed

section \<open>Decryption\<close>

text \<open>
  Claim C1: for well-formed key material and \<open>0 \<le> m < n\<close>, \<^verbatim>\<open>decrypt\<close> returns
  \<open>m ^ d mod n\<close>, with blinding and without. The code does not: without blinding, on
  the key of the examples and \<open>m = 1\<close>, both half exponentiations give \<open>1\<close>, the
  difference has limb \<open>0\<close> equal to zero, the first branch sets \<open>t = q - 0\<close>, and the
  call returns \<open>n + 1 = 144\<close> where \<open>m ^ d mod n = 1\<close>. This holds for every limb width,
  for every value the random source holds ready and for every blinding state.
\<close>

theorem decrypt_unblinded_small_message:
  "fst (decrypt DB \<lparr>rsa_blinding = False\<rparr> drawn st 1 143 7 103 13 11 6) = 144 \<and>
   modPow 1 103 143 = 1"
  by (simp add: decrypt_def half_exp_def crt_t_def subtract_limb0_def modPow_def)

text \<open>
  Claim C2: after the branch of the combination step, \<open>t\<close> is congruent to
  \<open>(xq - xp) * u\<close> modulo \<open>q\<close> and lies in \<open>[0, q)\<close>. On the same input the code leaves
  \<open>t = q = 11\<close>, outside the range.
\<close>

theorem crt_t_out_of_range:
  "crt_t DB (half_exp 1 103 13) (half_exp 1 103 11) 11 6 = 11"
  by (simp add: half_exp_def crt_t_def subtract_limb0_def modPow_def)

text \<open>
  Claim C3: \<^verbatim>\<open>decrypt(encrypt(m, e, n), n, e, d, p, q, u) == m\<close> for \<open>0 \<le> m < n\<close>. On
  the key of the examples, \<open>m = 1\<close> encrypts to \<open>1\<close>, and without blinding the code
  decrypts it to \<open>144\<close>.
\<close>

theorem roundtrip_unblinded_small_message:
  "fst (decrypt DB \<lparr>rsa_blinding = False\<rparr> drawn st (encrypt 1 7 143) 143 7 103 13 11 6) = 144"
  by (simp add: decrypt_def encrypt_def modPowInt_def half_exp_def crt_t_def subtract_limb0_def
      modPow_def)

text \<open>
  Claim C10: with \<^verbatim>\<open>config.rsa_blinding\<close> off, \<^verbatim>\<open>decrypt\<close> leaves \<^verbatim>\<open>blinder\<close> and
  \<^verbatim>\<open>unblinder\<close> as they were, and its result depends on its arguments only: not on
  the blinding state and not on the random source.
\<close>

theorem decrypt_unblinded_frame:
  assumes "\<not> rsa_blinding cfg"
  shows "snd (decrypt DB cfg drawn st m n e d p q u) = st \<and>
         fst (decrypt DB cfg drawn st m n e d p q u) =
         fst (decrypt DB cfg drawn' st' m n e d p q u)"
  using assms by (simp add: decrypt_def Let_def)

theorem decrypt_unblinded_frame_witness:
  "\<not> rsa_blinding \<lparr>rsa_blinding = False\<rparr> \<and>
   snd (decrypt 26 \<lparr>rsa_blinding = False\<rparr> 2 \<lparr>blinder = 19, unblinder = 2\<rparr> 65 143 7 103 13 11 6)
     = \<lparr>blinder = 19, unblinder = 2\<rparr> \<and>
   fst (decrypt 26 \<lparr>rsa_blinding = False\<rparr> 2 \<lparr>blinder = 19, unblinder = 2\<rparr> 65 143 7 103 13 11 6)
     = fst (decrypt 26 \<lparr>rsa_blinding = False\<rparr> 5 initial_blinding 65 143 7 103 13 11 6)"
proof -
  have h: "\<not> rsa_blinding \<lparr>rsa_blinding = False\<rparr>" by simp
  from decrypt_unblinded_frame[OF h, of 26 2 "\<lparr>blinder = 19, unblinder = 2\<rparr>" 65 143 7 103 13 11 6 5 initial_blinding]
  show ?thesis using h by simp
qed

section \<open>Blinding\<close>

text \<open>
  Claim C4, as amended: for well-formed key material, every \<open>m\<close> and every blinding
  state left by earlier calls, if the unblinder that \<^verbatim>\<open>blind\<close> installs is coprime to
  \<open>n\<close>, then blinding, the private exponentiation and unblinding give \<open>m ^ d mod n\<close>:
  \<^verbatim>\<open>unblind(blind(m, n, e).modPow(d, n), n)\<close> equals \<^verbatim>\<open>m.modPow(d, n)\<close>.
\<close>

theorem blind_private_unblind:
  assumes "valid_key n e d p q u"
    and "gcd (unblinder (snd (blind drawn st m n e))) n = 1"
  shows "unblind (snd (blind drawn st m n e)) (modPow (fst (blind drawn st m n e)) d n) n
         = modPow m d n"
proof -
  define ub where "ub = unblinder (snd (blind drawn st m n e))"
  have c: "gcd ub n = 1" using assms(2) by (simp only: ub_def)
  have b: "fst (blind drawn st m n e) = (m * (modInverse ub n ^ nat e mod n)) mod n"
    unfolding ub_def by (simp add: blind_def Let_def modPow_def)
  have "unblind (snd (blind drawn st m n e)) (modPow (fst (blind drawn st m n e)) d n) n
        = ((fst (blind drawn st m n e)) ^ nat d mod n * ub) mod n"
    by (simp only: unblind_def modPow_def ub_def)
  also have "\<dots> = ((((m * (modInverse ub n ^ nat e mod n)) mod n) ^ nat d mod n) * ub) mod n"
    by (simp only: b)
  also have "\<dots> = m ^ nat d mod n"
    by (rule blind_private_unblind_core[OF assms(1) c])
  finally show ?thesis by (simp only: modPow_def)
qed

text \<open>
  The amended claim C4 on the key of the examples, from the first state, with \<open>2\<close> drawn.
\<close>

theorem blind_private_unblind_witness:
  "valid_key 143 7 103 13 11 6 \<and>
   gcd (unblinder (snd (blind 2 initial_blinding 5 143 7))) 143 = 1 \<and>
   unblind (snd (blind 2 initial_blinding 5 143 7))
     (modPow (fst (blind 2 initial_blinding 5 143 7)) 103 143) 143 = modPow 5 103 143"
proof -
  have h1: "valid_key 143 7 103 13 11 6" by (rule toy_key_valid)
  have h2: "gcd (unblinder (snd (blind 2 initial_blinding 5 143 7))) 143 = 1" by code_simp
  from blind_private_unblind[OF h1 h2] h1 h2 show ?thesis by blast
qed

text \<open>
  Claim C4 as stated fails: \<^verbatim>\<open>unblind(blind(m, n, e), n)\<close> is not \<open>m\<close>. From the first
  state with \<open>2\<close> drawn, \<open>n = 143\<close>, \<open>e = 7\<close> and \<open>m = 1\<close> it is \<open>38\<close>.
\<close>

theorem blind_unblind_counterexample:
  "unblind (snd (blind 2 initial_blinding 1 143 7)) (fst (blind 2 initial_blinding 1 143 7)) 143 \<noteq> 1 mod 143"
  by code_simp

section \<open>Signing and verifying\<close>

text \<open>
  Claim C5, as amended: for well-formed key material and every \<open>m\<close> with
  \<open>0 \<le> m < n\<close>, \<^verbatim>\<open>verify(sign(m, d, n), e, n)\<close> is \<open>m\<close>.
\<close>

theorem verify_sign:
  assumes "valid_key n e d p q u" and "0 \<le> m" and "m < n"
  shows "verify (sign m d n) e n = m"
  using verify_sign_mod[OF assms(1), of m] assms(2,3) by simp

text \<open>
  The amended claim C5 on the key of the examples and \<open>m = 65\<close>.
\<close>

theorem verify_sign_witness:
  "valid_key 143 7 103 13 11 6 \<and> (0::int) \<le> 65 \<and> (65::int) < 143 \<and>
   verify (sign 65 103 143) 7 143 = 65"
proof -
  have a: "(0::int) \<le> 65" and b: "(65::int) < 143" by simp_all
  from verify_sign[OF toy_key_valid a b] toy_key_valid show ?thesis by simp
qed

text \<open>
  Claim C5 as stated, for all \<open>m\<close>, fails: on the key of the examples
  \<open>m = 145\<close> comes back as \<open>2\<close>.
\<close>

theorem verify_sign_counterexample:
  "valid_key 143 7 103 13 11 6 \<and> verify (sign 145 103 143) 7 143 \<noteq> 145"
  using verify_sign_mod[OF toy_key_valid, of 145] toy_key_valid by simp

section \<open>Absence of argument checks\<close>

text \<open>
  A message \<open>m\<close> and its residue \<open>m mod n\<close> are not told apart: neither by the three
  exponentiations, nor by \<^verbatim>\<open>decrypt\<close> when \<open>n = p * q\<close>.
\<close>

lemma half_exp_mod:
  assumes "n = p * q"
  shows "half_exp (m mod n) d p = half_exp m d p" "half_exp (m mod n) d q = half_exp m d q"
proof -
  have "p dvd n" "q dvd n" using assms by simp_all
  then have "(m mod n) mod p = m mod p" "(m mod n) mod q = m mod q"
    by (simp_all add: mod_mod_cancel)
  then show "half_exp (m mod n) d p = half_exp m d p" "half_exp (m mod n) d q = half_exp m d q"
    by (simp_all add: half_exp_def)
qed

lemma blind_mod: "blind drawn st (m mod n) n e = blind drawn st m n e"
  by (simp add: blind_def Let_def mod_mult_left_eq)

lemma decrypt_mod:
  assumes "n = p * q"
  shows "decrypt DB cfg drawn st (m mod n) n e d p q u = decrypt DB cfg drawn st m n e d p q u"
proof (cases "rsa_blinding cfg")
  case False
  then show ?thesis by (simp add: decrypt_def Let_def half_exp_mod[OF assms])
next
  case True
  then show ?thesis by (simp add: decrypt_def blind_mod)
qed

text \<open>The call of \<^verbatim>\<open>decrypt\<close> throws exactly when the random source is asked and throws.\<close>

lemma call_decrypt_throws_iff:
  "call_decrypt DB cfg draw st m n e d p q u = Threw \<longleftrightarrow>
   (rsa_blinding cfg \<and> bitLength (unblinder st) \<noteq> bitLength n \<and> draw = Threw)"
  by (cases draw) (simp_all add: call_decrypt_def)

text \<open>
  Claim C7, as amended: the primitives do not check \<open>m\<close> against \<open>n\<close>. \<^verbatim>\<open>encrypt\<close>,
  \<^verbatim>\<open>sign\<close> and \<^verbatim>\<open>verify\<close> return for every \<open>m\<close> what they return for \<open>m mod n\<close>, and for
  \<open>n = p * q\<close> the call of \<^verbatim>\<open>decrypt\<close> completes for \<open>m\<close> as it completes for \<open>m mod n\<close>:
  with the same result and state, or throwing in the same case. Nothing is raised
  because \<open>m \<ge> n\<close>.
\<close>

theorem message_not_checked:
  assumes "n = p * q"
  shows "encrypt m e n = encrypt (m mod n) e n \<and>
         sign m d n = sign (m mod n) d n \<and>
         verify m e n = verify (m mod n) e n \<and>
         call_decrypt DB cfg draw st m n e d p q u =
           call_decrypt DB cfg draw st (m mod n) n e d p q u"
  by (cases draw)
    (simp_all add: encrypt_def sign_def verify_def modPow_def modPowInt_def power_mod
      call_decrypt_def decrypt_mod[OF assms])

text \<open>
  The amended claim C7 on the key of the examples: \<open>m = 145\<close> is treated as \<open>2\<close>, and the
  call of \<^verbatim>\<open>decrypt\<close> returns \<open>63\<close>, which is \<open>2 ^ 103 mod 143\<close>.
\<close>

theorem message_not_checked_witness:
  "(143::int) = 13 * 11 \<and>
   encrypt 145 7 143 = encrypt (145 mod 143) 7 143 \<and>
   sign 145 103 143 = sign (145 mod 143) 103 143 \<and>
   verify 145 7 143 = verify (145 mod 143) 7 143 \<and>
   call_decrypt 26 \<lparr>rsa_blinding = False\<rparr> (Returned 2) initial_blinding 145 143 7 103 13 11 6
     = Returned (63, initial_blinding)"
proof -
  have h: "(143::int) = 13 * 11" by simp
  have r: "call_decrypt 26 \<lparr>rsa_blinding = False\<rparr> (Returned 2) initial_blinding
             (145 mod 143) 143 7 103 13 11 6 = Returned (63, initial_blinding)"
    by (simp add: call_decrypt_def decrypt_def half_exp_def crt_t_def subtract_limb0_def
        modPow_def)
  note t = message_not_checked[OF h, where m = 145 and e = 7 and d = 103 and DB = 26
      and cfg = "\<lparr>rsa_blinding = False\<rparr>" and draw = "Returned 2" and st = initial_blinding
      and u = 6]
  have a: "encrypt 145 7 143 = encrypt (145 mod 143) 7 143"
    by (rule t[THEN conjunct1])
  have b: "sign 145 103 143 = sign (145 mod 143) 103 143"
    by (rule t[THEN conjunct2, THEN conjunct1])
  have c: "verify 145 7 143 = verify (145 mod 143) 7 143"
    by (rule t[THEN conjunct2, THEN conjunct2, THEN conjunct1])
  have dd: "call_decrypt 26 \<lparr>rsa_blinding = False\<rparr> (Returned 2) initial_blinding
              145 143 7 103 13 11 6 = Returned (63, initial_blinding)"
    using t[THEN conjunct2, THEN conjunct2, THEN conjunct2] r by (simp only:)
  show ?thesis by (intro conjI) (rule h a b c dd)+
qed

text \<open>
  Claim C7 as stated fails: with \<open>m = 145 \<ge> n = 143\<close>, \<^verbatim>\<open>encrypt\<close> raises nothing and
  returns \<open>128\<close>, the ciphertext of \<open>2\<close>, and the call of \<^verbatim>\<open>decrypt\<close> returns \<open>63\<close>.
\<close>

theorem large_message_returns:
  "(143::int) \<le> 145 \<and> encrypt 145 7 143 = 128 \<and> encrypt 2 7 143 = 128 \<and>
   call_decrypt 26 \<lparr>rsa_blinding = False\<rparr> (Returned 2) initial_blinding 145 143 7 103 13 11 6
     = Returned (63, initial_blinding)"
  by (simp add: encrypt_def modPowInt_def call_decrypt_def decrypt_def half_exp_def crt_t_def
      subtract_limb0_def modPow_def)

section \<open>Key generation\<close>

text \<open>
  What every key returned by the search in the process satisfies: \<open>p\<close> and \<open>q\<close> passed
  \<^verbatim>\<open>isProbablePrime(10)\<close>, \<open>p > q\<close> when they differ, \<open>gcd(ee, p - 1) = gcd(ee, q - 1) = 1\<close>,
  \<open>n = p * q\<close>, \<open>ee\<close> and \<open>e\<close> are what the two readings of \<^verbatim>\<open>E\<close> give,
  \<open>d * ee mod ((p - 1) * (q - 1)) = 1\<close> when \<open>q > 2\<close>, \<open>dmp1 = d mod (p - 1)\<close>,
  \<open>dmq1 = d mod (q - 1)\<close> and \<open>u\<close> is what \<^verbatim>\<open>p.modInverse(q)\<close> answers.
\<close>

theorem generate_js_key_invariants:
  assumes "generate_js newBig isPP fromHex parseInt B E rng = Some (key, rng')"
  shows "\<exists>p q d. key_p key = Some p \<and> key_q key = Some q \<and> key_d key = Some d \<and>
     isPP p 10 \<and> isPP q 10 \<and> (p \<noteq> q \<longrightarrow> q < p) \<and>
     gcd (fromHex E) (p - 1) = 1 \<and> gcd (fromHex E) (q - 1) = 1 \<and>
     key_n key = Some (p * q) \<and> key_e key = parseInt E 16 \<and> key_ee key = Some (fromHex E) \<and>
     (2 < q \<longrightarrow> (d * fromHex E) mod ((p - 1) * (q - 1)) = 1) \<and>
     key_dmp1 key = Some (d mod (p - 1)) \<and> key_dmq1 key = Some (d mod (q - 1)) \<and>
     key_u key = Some (modInverse p q)"
proof -
  define ee where "ee = fromHex E"
  have run: "search_key newBig isPP B (B div 2) ee
               (new_keyObject\<lparr>key_e := parseInt E 16, key_ee := Some ee\<rparr>) rng = Some (key, rng')"
    using assms by (simp add: generate_js_def Let_def ee_def)
  from search_key_result[OF run]
  have e: "key_e key = parseInt E 16" and e2: "key_ee key = Some ee"
    and post: "search_post ee isPP key"
    by simp_all
  from post obtain p q where all: "key_p key = Some p \<and> key_q key = Some q \<and> q \<le> p \<and>
        isPP p 10 \<and> isPP q 10 \<and> gcd (p - 1) ee = 1 \<and> gcd (q - 1) ee = 1 \<and>
        gcd ((p - 1) * (q - 1)) ee = 1 \<and>
        key_n key = Some (p * q) \<and>
        key_d key = Some (modInverse ee ((p - 1) * (q - 1))) \<and>
        key_dmp1 key = Some (modInverse ee ((p - 1) * (q - 1)) mod (p - 1)) \<and>
        key_dmq1 key = Some (modInverse ee ((p - 1) * (q - 1)) mod (q - 1)) \<and>
        key_u key = Some (modInverse p q)"
    unfolding search_post_def by (elim exE)
  then have pq: "key_p key = Some p" "key_q key = Some q" "q \<le> p"
      "isPP p 10" "isPP q 10" "gcd (p - 1) ee = 1" "gcd (q - 1) ee = 1"
      "gcd ((p - 1) * (q - 1)) ee = 1" "key_n key = Some (p * q)"
      "key_d key = Some (modInverse ee ((p - 1) * (q - 1)))"
      "key_dmp1 key = Some (modInverse ee ((p - 1) * (q - 1)) mod (p - 1))"
      "key_dmq1 key = Some (modInverse ee ((p - 1) * (q - 1)) mod (q - 1))"
      "key_u key = Some (modInverse p q)"
    by simp_all
  define d where "d = modInverse ee ((p - 1) * (q - 1))"
  have inv: "(d * ee) mod ((p - 1) * (q - 1)) = 1" if "2 < q"
  proof -
    have "2 \<le> p - 1" "2 \<le> q - 1" using that pq(3) by auto
    then have "2 * 2 \<le> (p - 1) * (q - 1)" by (intro mult_mono) auto
    then have big: "1 < (p - 1) * (q - 1)" by simp
    have "coprime ee ((p - 1) * (q - 1))"
      using pq(8) by (simp add: coprime_iff_gcd_eq_1 gcd.commute)
    from modInverse_correct(1)[OF this big] show ?thesis by (simp add: d_def mult.commute)
  qed
  have final: "key_p key = Some p \<and> key_q key = Some q \<and> key_d key = Some d \<and>
     isPP p 10 \<and> isPP q 10 \<and> (p \<noteq> q \<longrightarrow> q < p) \<and>
     gcd ee (p - 1) = 1 \<and> gcd ee (q - 1) = 1 \<and>
     key_n key = Some (p * q) \<and> key_e key = parseInt E 16 \<and> key_ee key = Some ee \<and>
     (2 < q \<longrightarrow> (d * ee) mod ((p - 1) * (q - 1)) = 1) \<and>
     key_dmp1 key = Some (d mod (p - 1)) \<and> key_dmq1 key = Some (d mod (q - 1)) \<and>
     key_u key = Some (modInverse p q)"
    using pq e e2 inv by (simp add: d_def gcd.commute)
  show ?thesis
    by (rule exI[where x = p], rule exI[where x = q], rule exI[where x = d],
        rule final[unfolded ee_def])
qed

text \<open>
  A run with eight bits, \<^verbatim>\<open>E = "7"\<close>, the candidates \<open>9, 11, 15, 13\<close> and a test that is
  never wrong: \<open>9\<close> and \<open>15\<close> are passed over, \<open>11\<close> and \<open>13\<close> are swapped.
\<close>

theorem generate_js_key_invariants_witness:
  "generate_js list_source exact_test parse_hex short_hex_parseInt 8 ''7'' [9, 11, 15, 13] =
     Some (\<lparr>key_n = Some 143, key_e = Number 7, key_ee = Some 7, key_d = Some 103,
            key_p = Some 13, key_q = Some 11, key_dmp1 = Some 7,
            key_dmq1 = Some 3, key_u = Some 6\<rparr>, []) \<and>
   exact_test 13 10 \<and> exact_test 11 10 \<and> (11::int) < 13 \<and>
   (103 * parse_hex ''7'') mod ((13 - 1) * (11 - 1)) = 1"
proof -
  let ?K = "\<lparr>key_n = Some 143, key_e = Number 7, key_ee = Some 7, key_d = Some 103,
            key_p = Some 13, key_q = Some 11, key_dmp1 = Some 7,
            key_dmq1 = Some 3, key_u = Some 6\<rparr>"
  have run: "generate_js list_source exact_test parse_hex short_hex_parseInt 8 ''7''
               [9, 11, 15, 13] = Some (?K, [])"
    by code_simp
  from generate_js_key_invariants[OF run]
  obtain p q d where *: "key_p ?K = Some p" "key_q ?K = Some q" "key_d ?K = Some d"
    "exact_test p 10" "exact_test q 10" "p \<noteq> q \<longrightarrow> q < p"
    "2 < q \<longrightarrow> (d * parse_hex ''7'') mod ((p - 1) * (q - 1)) = 1"
    by blast
  from *(1,2,3) have "p = 13" "q = 11" "d = 103" by simp_all
  with *(4,5,6,7) run show ?thesis by simp
qed

text \<open>
  Claim C6: every key returned by the search in the process has \<open>p\<close> and \<open>q\<close> prime with
  \<open>p > q\<close>, \<open>n = p * q\<close> and \<open>u\<close> the inverse of \<open>p\<close> modulo \<open>q\<close>. The code does not keep to
  it: the swap is made for \<open>p \<le> q\<close> and nothing rejects \<open>p = q\<close>. For four bits and
  \<^verbatim>\<open>E = "3"\<close> both primes are drawn with two bits, both are \<open>3\<close>, and the key is returned
  with \<open>p = q = 3\<close>, \<open>n = 9\<close> and \<open>u = 0\<close>, even with a test that is never wrong and whatever
  \<^verbatim>\<open>parseInt\<close> answers.
\<close>

theorem generate_js_equal_primes:
  "generate_js two_bit_source exact_test parse_hex parseInt 4 ''3'' 0 =
     Some (\<lparr>key_n = Some 9, key_e = parseInt ''3'' 16, key_ee = Some 3, key_d = Some 3,
            key_p = Some 3, key_q = Some 3, key_dmp1 = Some 1, key_dmq1 = Some 1,
            key_u = Some 0\<rparr>, 2)"
  by code_simp

text \<open>
  Claim C8: whenever the key service of the platform is there, \<^verbatim>\<open>generate\<close> asks it
  for the public exponent \<open>[1, 0, 1]\<close>, that is \<open>65537\<close>, whatever \<^verbatim>\<open>E\<close> is. The request
  handed to \<^verbatim>\<open>generateKey\<close> is built from \<^verbatim>\<open>B\<close> alone, and the invocations of the callback
  are those of the chain run on what the platform answers to that request.
\<close>

theorem native_request_exponent:
  assumes "subtle_available pf"
  shows "generate pf newBig isPP fromHex parseInt rng B E callback =
           Some (Some (native_request B),
                 snd (promise_then
                        (promise_then (generateKey pf (native_request B), [])
                           (onGenerated pf) (onError callback))
                        (onExported callback fromHex E) (onError callback)
                      :: unit option settled \<times> invocation list)) \<and>
         publicExponent (algorithm (native_request B)) = [1, 0, 1] \<and>
         bytes_value (publicExponent (algorithm (native_request B))) = 65537"
  using assms
  by (simp add: generate_def generate_native_def Let_def native_request_def keyGenOpt_def
      bytes_value_def)

text \<open>
  Claim C8 on a platform that fulfils a request only if it asks for the exponent
  \<open>65537\<close>: with \<^verbatim>\<open>E = "3"\<close> the request is fulfilled and the callback gets the key.
\<close>

theorem native_request_exponent_witness:
  "subtle_available exponent_65537_platform \<and>
   generate exponent_65537_platform two_bit_source exact_test parse_hex short_hex_parseInt 0
       2048 ''3'' returning_callback =
     Some (Some (native_request 2048),
           [(None, Some \<lparr>key_n = Some 24930, key_e = Number 0, key_ee = Some 3,
                          key_d = Some 99, key_p = Some 100, key_q = Some 101,
                          key_dmp1 = None, key_dmq1 = None, key_u = Some 100\<rparr>)]) \<and>
   bytes_value (publicExponent (algorithm (native_request 2048))) = 65537"
proof -
  have h: "subtle_available exponent_65537_platform"
    by (simp add: exponent_65537_platform_def)
  have g: "generateKey exponent_65537_platform (native_request 2048) = Fulfilled ()"
    by (simp add: exponent_65537_platform_def native_request_def keyGenOpt_def bytes_value_def)
  have x: "exportKey exponent_65537_platform () = Fulfilled example_jwk"
    by (simp add: exponent_65537_platform_def)
  have u: "modInverse 100 101 = 100" by code_simp
  have chain: "snd (promise_then
                        (promise_then (generateKey exponent_65537_platform (native_request 2048), [])
                           (onGenerated exponent_65537_platform) (onError returning_callback))
                        (onExported returning_callback parse_hex ''3'') (onError returning_callback)
                      :: unit option settled \<times> invocation list) =
           [(None, Some \<lparr>key_n = Some 24930, key_e = Number 0, key_ee = Some 3,
                          key_d = Some 99, key_p = Some 100, key_q = Some 101,
                          key_dmp1 = None, key_dmq1 = None, key_u = Some 100\<rparr>)]"
    by (simp add: g x u promise_then_def onGenerated_def onExported_def returning_callback_def
        example_jwk_def new_keyObject_def base64_def hexstr_value_def parse_hex_def hex_digit_def
        Let_def)
  from native_request_exponent[OF h, where newBig = two_bit_source and isPP = exact_test
      and fromHex = parse_hex and parseInt = short_hex_parseInt and rng = 0 and B = 2048
      and E = "''3''" and callback = returning_callback]
  show ?thesis using h by (simp add: chain bytes_value_def)
qed

text \<open>
  Claim C9: on the path through the platform the callback is invoked at most once.
  The code does not keep to it: when \<^verbatim>\<open>generateKey\<close> is rejected, the first
  \<^verbatim>\<open>onError\<close> invokes the callback; if the callback throws there, the promise of the
  first \<^verbatim>\<open>then\<close> is rejected and the second \<^verbatim>\<open>then\<close> runs \<^verbatim>\<open>onError\<close> again.
\<close>

theorem callback_invoked_twice:
  "generate rejecting_platform newBig isPP fromHex parseInt rng B E throwing_callback =
     Some (Some \<lparr>algorithm = keyGenOpt B, extractable = True,
                  keyUsages = [''sign'', ''verify'']\<rparr>,
           [(Some ''Generating key failed!'', None), (Some ''Generating key failed!'', None)])"
  by (simp add: generate_def generate_native_def rejecting_platform_def throwing_callback_def
      Let_def promise_then_def onError_def)

text \<open>
  With a callback that returns when it is handed the error, the chain invokes it at most
  once, and every invocation carries either the error or the key.
\<close>

lemma native_trace_cases:
  assumes "callback (Some ''Generating key failed!'', None) = Returned ()"
  shows "snd (generate_native pf callback fromHex B E) = [] \<or>
         snd (generate_native pf callback fromHex B E) = [(Some ''Generating key failed!'', None)] \<or>
         (\<exists>key. snd (generate_native pf callback fromHex B E) = [(None, Some key)])"
  using assms
  by (auto simp: generate_native_def Let_def promise_then_def onError_def onGenerated_def
      onExported_def split: settled.splits completion.splits option.splits)

theorem native_callback_at_most_once:
  assumes "callback (Some ''Generating key failed!'', None) = Returned ()"
    and "subtle_available pf"
  shows "\<exists>req tr. generate pf newBig isPP fromHex parseInt rng B E callback = Some (Some req, tr) \<and>
           length tr \<le> 1 \<and> list_all (\<lambda>c. (fst c = None) \<noteq> (snd c = None)) tr"
proof -
  obtain req tr where g: "generate_native pf callback fromHex B E = (req, tr)"
    by (cases "generate_native pf callback fromHex B E")
  from native_trace_cases[where callback = callback and pf = pf and fromHex = fromHex
      and B = B and E = E, OF assms(1)] g
  have "tr = [] \<or> tr = [(Some ''Generating key failed!'', None)] \<or> (\<exists>key. tr = [(None, Some key)])"
    by simp
  then have "length tr \<le> 1 \<and> list_all (\<lambda>c. (fst c = None) \<noteq> (snd c = None)) tr" by auto
  moreover have "generate pf newBig isPP fromHex parseInt rng B E callback = Some (Some req, tr)"
    using assms(2) g by (simp add: generate_def)
  ultimately show ?thesis by blast
qed

end
